theory Spec2Isabelle
  imports Complex_Main
begin

section \<open>Strings, numbers and insertion-ordered sets\<close>

text \<open>
  File names contain characters outside the 8-bit range (the circled digits), so a
  JavaScript string is modelled as the list of its Unicode code points; \<open>codePointAt(0)\<close>
  is the head of that list.  \<open>ascii\<close> turns an ASCII literal into such a list.
\<close>

type_synonym ustring = "nat list"

definition ascii :: "string \<Rightarrow> ustring" where
  "ascii s = map of_char s"

text \<open>
  \<open>String.prototype.trim\<close> removes the code points of the ECMAScript productions
  WhiteSpace and LineTerminator from both ends.
\<close>

definition is_whitespace :: "nat \<Rightarrow> bool" where
  "is_whitespace c =
     (c \<in> {0x9, 0xA, 0xB, 0xC, 0xD, 0x20, 0xA0, 0x1680, 0x2028, 0x2029, 0x202F, 0x205F,
            0x3000, 0xFEFF}
      \<or> (0x2000 \<le> c \<and> c \<le> 0x200A))"

definition trim :: "ustring \<Rightarrow> ustring" where
  "trim s = rev (dropWhile is_whitespace (rev (dropWhile is_whitespace s)))"

text \<open>
  The numbers that occur as weights and comparator results are integers held in IEEE
  binary64, the two infinities and NaN.  \<open>round53\<close> rounds a natural number to 53
  significant bits, ties to even; \<open>to_double\<close> is the binary64 value nearest to an
  integer, overflowing to an infinity from \<open>2^1024 - 2^970\<close> on.
\<close>

datatype jsnum = Num int | PlusInf | MinusInf | NaN

fun bitlen :: "nat \<Rightarrow> nat" where
  "bitlen n = (if n = 0 then 0 else Suc (bitlen (n div 2)))"

declare bitlen.simps [simp del]

definition round53 :: "nat \<Rightarrow> nat" where
  "round53 n =
     (if n < 2 ^ 53 then n
      else let e = bitlen n - 53; q = n div 2 ^ e; r = n mod 2 ^ e; half = 2 ^ (e - 1)
           in (if half < r \<or> (r = half \<and> odd q) then q + 1 else q) * 2 ^ e)"

definition to_double :: "int \<Rightarrow> jsnum" where
  "to_double i =
     (let m = round53 (nat \<bar>i\<bar>)
      in if 2 ^ 1024 \<le> m then (if i < 0 then MinusInf else PlusInf)
         else Num (if i < 0 then - int m else int m))"

fun js_sub :: "jsnum \<Rightarrow> jsnum \<Rightarrow> jsnum" where
  "js_sub (Num a) (Num b) = to_double (a - b)"
| "js_sub NaN y = NaN"
| "js_sub x NaN = NaN"
| "js_sub PlusInf PlusInf = NaN"
| "js_sub MinusInf MinusInf = NaN"
| "js_sub PlusInf y = PlusInf"
| "js_sub MinusInf y = MinusInf"
| "js_sub (Num a) PlusInf = MinusInf"
| "js_sub (Num a) MinusInf = PlusInf"

text \<open>
  A JavaScript \<open>Set\<close> keeps its elements in insertion order without duplicates; it is
  modelled as a list, \<open>Array.from\<close> and spreading being the identity and \<open>size\<close> the
  length.
\<close>

definition set_has :: "'a \<Rightarrow> 'a list \<Rightarrow> bool" where
  "set_has x s = (x \<in> set s)"

definition set_add :: "'a \<Rightarrow> 'a list \<Rightarrow> 'a list" where
  "set_add x s = (if set_has x s then s else s @ [x])"

definition set_delete :: "'a \<Rightarrow> 'a list \<Rightarrow> 'a list" where
  "set_delete x s = removeAll x s"

definition new_Set :: "'a list \<Rightarrow> 'a list" where
  "new_Set xs = fold set_add xs []"

section \<open>Manifest nodes\<close>

text \<open>
  The two shapes of object that \<open>buildNode\<close> returns and that the viewer reads back from
  the manifest.  A video object carries the constant \<open>videoCount: 1\<close>.
\<close>

datatype node =
    Directory (node_name: ustring) (node_path: ustring) (dir_videoCount: nat)
              (children: "node list")
  | Video (node_name: ustring) (node_path: ustring) (video_size: nat)

fun videoCount :: "node \<Rightarrow> nat" where
  "videoCount (Directory nm p c ch) = c"
| "videoCount (Video nm p sz) = 1"

section \<open>Indexer: ordering\<close>

definition is_digit :: "nat \<Rightarrow> bool" where
  "is_digit c = (0x30 \<le> c \<and> c \<le> 0x39)"

definition decimal_value :: "ustring \<Rightarrow> nat" where
  "decimal_value ds = foldl (\<lambda>acc c. 10 * acc + (c - 0x30)) 0 ds"

text \<open>\<open>Number(match[1])\<close> on a run of ASCII digits.\<close>

definition Number_digits :: "ustring \<Rightarrow> jsnum" where
  "Number_digits ds = to_double (int (decimal_value ds))"

definition getLeadingNumberWeight :: "ustring \<Rightarrow> jsnum" where
  "getLeadingNumberWeight name =
     (if name = [] then PlusInf
      else let trimmed = trim name
           in if trimmed = [] then PlusInf
              else let firstCode = hd trimmed
                   in if 0x2460 \<le> firstCode \<and> firstCode \<le> 0x2473
                      then Num (int firstCode - 0x245f)
                      else (case takeWhile is_digit trimmed of
                              [] \<Rightarrow> PlusInf
                            | d # ds \<Rightarrow> Number_digits (d # ds)))"

text \<open>
  \<open>Intl.Collator("ja-JP-u-nu-latn", {numeric, sensitivity: "base"}).compare\<close> belongs to
  the runtime, not to the repository: it is a parameter of everything that sorts.
\<close>

type_synonym collator = "ustring \<Rightarrow> ustring \<Rightarrow> int"

definition compareEntries :: "collator \<Rightarrow> node \<Rightarrow> node \<Rightarrow> jsnum" where
  "compareEntries coll a b =
     (let weightDiff = js_sub (getLeadingNumberWeight (node_name a))
                              (getLeadingNumberWeight (node_name b))
      in if weightDiff \<noteq> Num 0 then weightDiff
         else Num (coll (node_name a) (node_name b)))"

text \<open>
  \<open>Array.prototype.sort\<close> is stable and reads a comparator result \<open>v\<close> only through its
  sign, taking NaN for \<open>+0\<close>.  It is modelled as the stable insertion sort: an element moves
  behind a later one only when the comparator says it is greater.
\<close>

fun is_positive :: "jsnum \<Rightarrow> bool" where
  "is_positive (Num i) = (0 < i)"
| "is_positive PlusInf = True"
| "is_positive MinusInf = False"
| "is_positive NaN = False"

fun sort_insert :: "('a \<Rightarrow> 'a \<Rightarrow> jsnum) \<Rightarrow> 'a \<Rightarrow> 'a list \<Rightarrow> 'a list" where
  "sort_insert cmp x [] = [x]"
| "sort_insert cmp x (y # ys) =
     (if is_positive (cmp x y) then y # sort_insert cmp x ys else x # y # ys)"

definition array_sort :: "('a \<Rightarrow> 'a \<Rightarrow> jsnum) \<Rightarrow> 'a list \<Rightarrow> 'a list" where
  "array_sort cmp xs = foldr (sort_insert cmp) xs []"

section \<open>Indexer: the walk\<close>

text \<open>
  What \<open>fs.stat\<close> and \<open>fs.readdir\<close> report about a path: a regular file with its size,
  a directory with its listing (entry names with what they lead to), something that is
  neither (\<open>Special\<close>: a socket, a device), a path whose \<open>stat\<close> is rejected
  (\<open>StatError\<close>: missing, a dangling link) and a directory whose \<open>readdir\<close> is rejected
  (\<open>UnreadableDir\<close>).
\<close>

datatype fsobj =
    RegularFile nat
  | Dir "(ustring \<times> fsobj) list"
  | Special
  | StatError
  | UnreadableDir

datatype error =
    StatFailed "ustring list"
  | ReaddirFailed "ustring list"
  | VideosDirNotFound
  | BuildFailed
  | WriteFailed

text \<open>
  A path below \<open>videosDir\<close> is the list of its segments relative to \<open>videosDir\<close>, the empty
  list being \<open>videosDir\<close> itself, whose base name is \<open>videos\<close>.  \<open>extname\<close> is Node's
  \<open>path.extname\<close> on one segment: from the last dot on, and empty when there is no dot,
  when the only dot is the first character, and for \<open>..\<close>.
\<close>

definition basename :: "ustring list \<Rightarrow> ustring" where
  "basename fullPath = (if fullPath = [] then ascii ''videos'' else last fullPath)"

definition extname :: "ustring \<Rightarrow> ustring" where
  "extname nm =
     (if 0x2E \<notin> set nm then []
      else let ext = 0x2E # rev (takeWhile (\<lambda>c. c \<noteq> 0x2E) (rev nm));
               stem = take (length nm - length ext) nm
           in if stem = [] \<or> nm = [0x2E, 0x2E] then [] else ext)"

text \<open>
  \<open>toLowerCase\<close> on the ASCII letters and the Kelvin sign.  Other code points are left
  alone; the full Unicode mapping sends none of them to a string made of the characters of
  \<open>.mp4\<close>, so the comparison with \<open>.mp4\<close> is the one the runtime makes.
\<close>

definition lower_code :: "nat \<Rightarrow> nat" where
  "lower_code c =
     (if 0x41 \<le> c \<and> c \<le> 0x5A then c + 0x20 else if c = 0x212A then 0x6B else c)"

definition toLowerCase :: "ustring \<Rightarrow> ustring" where
  "toLowerCase s = map lower_code s"

fun join :: "ustring \<Rightarrow> ustring list \<Rightarrow> ustring" where
  "join sep [] = []"
| "join sep [x] = x"
| "join sep (x # y # ys) = x @ sep @ join sep (y # ys)"

definition manifest_path :: "ustring list \<Rightarrow> ustring" where
  "manifest_path fullPath =
     (let normalized = join (ascii ''/'') fullPath
      in if normalized \<noteq> [] then ascii ''videos/'' @ normalized else ascii ''videos'')"

definition starts_with_dot :: "ustring \<Rightarrow> bool" where
  "starts_with_dot nm = (take 1 nm = [0x2E])"

text \<open>
  \<open>buildNode\<close> returns a node, \<open>null\<close> (\<open>None\<close>) or throws (\<open>Inl\<close>).  \<open>buildChildren\<close> is
  its loop over the listing, which yields the array \<open>children\<close> as pushed, before sorting.
\<close>

fun buildNode :: "collator \<Rightarrow> ustring list \<Rightarrow> fsobj \<Rightarrow> error + node option"
and buildChildren ::
      "collator \<Rightarrow> ustring list \<Rightarrow> (ustring \<times> fsobj) list \<Rightarrow> error + node list"
where
  "buildNode coll fullPath StatError = Inl (StatFailed fullPath)"
| "buildNode coll fullPath UnreadableDir = Inl (ReaddirFailed fullPath)"
| "buildNode coll fullPath (Dir entries) =
     (case buildChildren coll fullPath entries of
        Inl err \<Rightarrow> Inl err
      | Inr pushed \<Rightarrow>
          (let children = array_sort (compareEntries coll) pushed;
               videoCount = foldl (\<lambda>tot child. tot + videoCount child) 0 children
           in Inr (Some (Directory (basename fullPath) (manifest_path fullPath)
                                   videoCount children))))"
| "buildNode coll fullPath (RegularFile sz) =
     (if toLowerCase (extname (basename fullPath)) = ascii ''.mp4''
      then Inr (Some (Video (basename fullPath) (manifest_path fullPath) sz))
      else Inr None)"
| "buildNode coll fullPath Special = Inr None"
| "buildChildren coll fullPath [] = Inr []"
| "buildChildren coll fullPath ((nm, obj) # rest) =
     (if starts_with_dot nm then buildChildren coll fullPath rest
      else case buildNode coll (fullPath @ [nm]) obj of
             Inl err \<Rightarrow> Inl err
           | Inr childNode \<Rightarrow>
               (case buildChildren coll fullPath rest of
                  Inl err \<Rightarrow> Inl err
                | Inr pushed \<Rightarrow>
                    Inr (case childNode of Some n \<Rightarrow> n # pushed | None \<Rightarrow> pushed)))"

definition ensureVideosDir :: "fsobj \<Rightarrow> error + unit" where
  "ensureVideosDir videosDir =
     (case videosDir of
        Dir entries \<Rightarrow> Inr ()
      | UnreadableDir \<Rightarrow> Inr ()
      | _ \<Rightarrow> Inl VideosDirNotFound)"

text \<open>
  A run of \<open>main\<close> ends with an exit code, the error it threw if any, and the categories
  of the manifest it wrote if any.  \<open>writable\<close> says whether \<open>mkdir\<close> and \<open>writeFile\<close> on
  the output path succeed.
\<close>

record outcome =
  exitCode :: nat
  thrown :: "error option"
  written :: "node list option"

definition node_children :: "node \<Rightarrow> node list" where
  "node_children n = (case n of Directory nm p c ch \<Rightarrow> ch | Video nm p sz \<Rightarrow> [])"

definition main :: "collator \<Rightarrow> bool \<Rightarrow> fsobj \<Rightarrow> outcome" where
  "main coll writable videosDir =
     (case ensureVideosDir videosDir of
        Inl err \<Rightarrow> \<lparr>exitCode = 1, thrown = Some err, written = None\<rparr>
      | Inr u \<Rightarrow>
          (case buildNode coll [] videosDir of
             Inl err \<Rightarrow> \<lparr>exitCode = 1, thrown = Some err, written = None\<rparr>
           | Inr None \<Rightarrow> \<lparr>exitCode = 1, thrown = Some BuildFailed, written = None\<rparr>
           | Inr (Some rootNode) \<Rightarrow>
               (if writable
                then \<lparr>exitCode = 0, thrown = None, written = Some (node_children rootNode)\<rparr>
                else \<lparr>exitCode = 1, thrown = Some WriteFailed, written = None\<rparr>)))"

section \<open>Viewer state (app.js)\<close>

text \<open>
  The fields of \<open>state\<close> that completion tracking uses, and \<open>setItemLog\<close>, the trace of the
  calls \<open>localStorage.setItem("learning:completedVideos", JSON.stringify(Array.from(set)))\<close>:
  one entry, the serialized list, per call.
\<close>

record state =
  categories :: "node list"
  completedVideos :: "ustring list"
  totalVideos :: nat
  validVideoPaths :: "ustring list"
  setItemLog :: "ustring list list"

definition persistCompletedVideos :: "state \<Rightarrow> state" where
  "persistCompletedVideos s = s\<lparr>setItemLog := setItemLog s @ [completedVideos s]\<rparr>"

definition toggleVideoCompletion :: "ustring \<Rightarrow> bool \<Rightarrow> state \<Rightarrow> state" where
  "toggleVideoCompletion path isCompleted s =
     (if path = [] then s
      else if \<not> set_has path (validVideoPaths s) then s
      else persistCompletedVideos
             (s\<lparr>completedVideos :=
                  (if isCompleted then set_add path (completedVideos s)
                   else set_delete path (completedVideos s))\<rparr>))"

text \<open>\<open>visit\<close> threads the two locals \<open>total\<close> and \<open>paths\<close> of \<open>collectVideoStats\<close>.\<close>

fun visit :: "node \<Rightarrow> nat \<times> ustring list \<Rightarrow> nat \<times> ustring list" where
  "visit (Video nm p sz) (tot, paths) =
     (tot + 1, if p \<noteq> [] then set_add p paths else paths)"
| "visit (Directory nm p c ch) acc = fold visit ch acc"

definition collectVideoStats :: "node list \<Rightarrow> nat \<times> ustring list" where
  "collectVideoStats cats = fold visit cats (0, [])"

definition pruneCompletedVideos :: "state \<Rightarrow> state" where
  "pruneCompletedVideos s =
     (let filtered = filter (\<lambda>path. set_has path (validVideoPaths s)) (completedVideos s)
      in if length filtered \<noteq> length (completedVideos s)
         then persistCompletedVideos (s\<lparr>completedVideos := new_Set filtered\<rparr>)
         else s)"

text \<open>The part of \<open>init\<close> that runs once the manifest has been fetched and parsed.\<close>

definition load_manifest :: "node list \<Rightarrow> state \<Rightarrow> state" where
  "load_manifest cats s =
     (let stats = collectVideoStats cats
      in pruneCompletedVideos
           (s\<lparr>categories := cats, totalVideos := fst stats, validVideoPaths := snd stats\<rparr>))"

definition run_toggles :: "(ustring \<times> bool) list \<Rightarrow> state \<Rightarrow> state" where
  "run_toggles calls s = fold (\<lambda>(path, flag). toggleVideoCompletion path flag) calls s"

section \<open>Viewer: progress display (app.js)\<close>

text \<open>
  \<open>percent\<close> is a binary64 number.  Finite binary64 values are rationals, and \<open>fl\<close> rounds
  a non-negative rational to the nearest one (ties to even) in the normal range, where
  every quotient and product of \<open>updateProgressUI\<close> lies: counts are below \<open>2^53\<close>, so a
  non-zero quotient is at least \<open>2^-53\<close> and a product at most 100.
\<close>

definition pow2 :: "int \<Rightarrow> rat" where
  "pow2 e = (if 0 \<le> e then 2 ^ nat e else 1 / 2 ^ nat (- e))"

definition ilog2 :: "rat \<Rightarrow> int" where
  "ilog2 q =
     (let (a, b) = quotient_of q;
          e0 = int (bitlen (nat a)) - int (bitlen (nat b))
      in if pow2 e0 \<le> q then e0 else e0 - 1)"

definition round_half_even :: "rat \<Rightarrow> int" where
  "round_half_even q =
     (let f = \<lfloor>q\<rfloor>; r = q - of_int f
      in if r < 1 / 2 then f else if 1 / 2 < r then f + 1 else if even f then f else f + 1)"

definition fl :: "rat \<Rightarrow> rat" where
  "fl q = (if q = 0 then 0
           else let e = ilog2 q; m = round_half_even (q * pow2 (52 - e))
                in of_int m * pow2 (e - 52))"

definition js_div :: "rat \<Rightarrow> rat \<Rightarrow> rat" where
  "js_div a b = fl (a / b)"

definition js_mul :: "rat \<Rightarrow> rat \<Rightarrow> rat" where
  "js_mul a b = fl (a * b)"

fun decimal_digits :: "nat \<Rightarrow> ustring" where
  "decimal_digits n =
     (if n < 10 then [0x30 + n] else decimal_digits (n div 10) @ [0x30 + n mod 10])"

declare decimal_digits.simps [simp del]

text \<open>
  \<open>toFixed(1)\<close> of a non-negative number below \<open>10^21\<close>: the integer \<open>n\<close> with \<open>n / 10\<close>
  nearest to the number, the larger one of two, printed with a point before its last digit.
\<close>

definition toFixed1 :: "rat \<Rightarrow> ustring" where
  "toFixed1 x =
     (let n = nat \<lfloor>x * 10 + 1 / 2\<rfloor>;
          m = decimal_digits n;
          m = (if length m \<le> 1 then replicate (2 - length m) 0x30 @ m else m)
      in take (length m - 1) m @ [0x2E] @ drop (length m - 1) m)"

text \<open>
  What \<open>updateProgressUI\<close> shows: the width of the fill bar in percent, the percentage
  text and the count text, whose last character is U+672C.
\<close>

record progress =
  fillPercent :: rat
  progressText :: ustring
  progressCount :: ustring

definition updateProgressUI :: "state \<Rightarrow> progress" where
  "updateProgressUI s =
     (let total = totalVideos s;
          completed = min (length (completedVideos s)) total;
          percent = (if total = 0 then 0
                     else js_mul (js_div (of_nat completed) (of_nat total)) 100);
          percentText = (if total = 0 then ascii ''0%'' else toFixed1 percent @ ascii ''%'')
      in \<lparr>fillPercent = percent,
          progressText = percentText,
          progressCount = decimal_digits completed @ ascii '' / '' @ decimal_digits total
                          @ [0x20, 0x672C]\<rparr>)"

section \<open>Notions used to state the properties\<close>


text \<open>
  A collator to run examples with: it orders names by their code points.  The properties
  below hold for every collator.
\<close>

fun codepoint_collator :: collator where
  "codepoint_collator [] [] = 0"
| "codepoint_collator [] (y # ys) = - 1"
| "codepoint_collator (x # xs) [] = 1"
| "codepoint_collator (x # xs) (y # ys) =
     (if x < y then - 1 else if y < x then 1 else codepoint_collator xs ys)"

text \<open>
  A name has the extension \<open>.mp4\<close>, whatever the case of its letters, when it ends in a
  dot, \<open>m\<close> or \<open>M\<close>, \<open>p\<close> or \<open>P\<close>, and \<open>4\<close>, after at least one other character.
\<close>

definition has_mp4_extension :: "ustring \<Rightarrow> bool" where
  "has_mp4_extension nm =
     (case rev nm of
        c3 # c2 # c1 # c0 # c # stem \<Rightarrow>
          c3 = 0x34 \<and> c2 \<in> {0x70, 0x50} \<and> c1 \<in> {0x6D, 0x4D} \<and> c0 = 0x2E
      | _ \<Rightarrow> False)"

text \<open>
  The number of files with that extension below a directory, leaving out every entry whose
  name starts with a dot together with all that is below it.
\<close>

fun count_obj :: "ustring \<Rightarrow> fsobj \<Rightarrow> nat"
and count_listing :: "(ustring \<times> fsobj) list \<Rightarrow> nat" where
  "count_obj nm (RegularFile sz) = (if has_mp4_extension nm then 1 else 0)"
| "count_obj nm (Dir entries) = count_listing entries"
| "count_obj nm Special = 0"
| "count_obj nm StatError = 0"
| "count_obj nm UnreadableDir = 0"
| "count_listing [] = 0"
| "count_listing ((nm, obj) # rest) =
     (if starts_with_dot nm then 0 else count_obj nm obj) + count_listing rest"

text \<open>The Video nodes of a tree and of a manifest, in document order.\<close>

fun video_nodes :: "node \<Rightarrow> node list" where
  "video_nodes (Video nm p sz) = [Video nm p sz]"
| "video_nodes (Directory nm p c ch) = concat (map video_nodes ch)"

definition all_video_nodes :: "node list \<Rightarrow> node list" where
  "all_video_nodes cats = concat (map video_nodes cats)"

definition truthy_paths :: "node list \<Rightarrow> ustring list" where
  "truthy_paths vs = filter (\<lambda>p. p \<noteq> []) (map node_path vs)"

text \<open>
  Every Directory node of a tree carries the sum of the \<open>videoCount\<close> of its immediate
  children, which is also the number of Video nodes below it.
\<close>

fun counts_consistent :: "node \<Rightarrow> bool" where
  "counts_consistent (Video nm p sz) = True"
| "counts_consistent (Directory nm p c ch) =
     (c = sum_list (map videoCount ch)
      \<and> c = length (concat (map video_nodes ch))
      \<and> list_all counts_consistent ch)"





text \<open>
  A manifest as the data model has it: every Video node carries a path.
\<close>

definition video_paths_present :: "node list \<Rightarrow> bool" where
  "video_paths_present cats = list_all (\<lambda>v. node_path v \<noteq> []) (all_video_nodes cats)"

text \<open>The errors that \<open>fs.stat\<close> and \<open>fs.readdir\<close> raise.\<close>

fun io_error :: "error \<Rightarrow> bool" where
  "io_error (StatFailed p) = True"
| "io_error (ReaddirFailed p) = True"
| "io_error VideosDirNotFound = False"
| "io_error BuildFailed = False"
| "io_error WriteFailed = False"

text \<open>Two listings to run the walk on.\<close>

definition example_listing :: "(ustring \<times> fsobj) list" where
  "example_listing =
     [(ascii ''b'', Dir [(ascii ''x.MP4'', RegularFile 3), (ascii ''.y.mp4'', RegularFile 4),
                         (ascii ''y.txt'', RegularFile 5)]),
      (ascii ''.hidden'', Dir [(ascii ''z.mp4'', RegularFile 6)]),
      (ascii ''top.mp4'', RegularFile 7)]"


section \<open>Indexer: the leading-number weight\<close>






text \<open>
  A digit run of \<open>2^53\<close> or more is rounded to binary64: twenty nines weigh \<open>10^20\<close>.
\<close>

lemma weight_long_digit_run:
  "getLeadingNumberWeight (ascii ''99999999999999999999'') = Num 100000000000000000000"
  by (simp add: getLeadingNumberWeight_def trim_def ascii_def is_whitespace_def
                is_digit_def Number_digits_def decimal_value_def to_double_def round53_def Let_def
                bitlen.simps)

section \<open>Indexer: the comparator\<close>

lemma to_double_0: "to_double 0 = Num 0"
  by (simp add: to_double_def round53_def)

text \<open>
  What holds of \<open>compareEntries\<close>: a numbered name goes before an unnumbered one, and two
  names of the same finite weight are left to the collator.
\<close>

lemma compareEntries_numbered_first:
  assumes "getLeadingNumberWeight (node_name a) = Num i"
    and "getLeadingNumberWeight (node_name b) = PlusInf"
  shows "compareEntries coll a b = MinusInf" and "compareEntries coll b a = PlusInf"
  using assms by (simp_all add: compareEntries_def)

lemma compareEntries_equal_finite_weight:
  assumes "getLeadingNumberWeight (node_name a) = Num i"
    and "getLeadingNumberWeight (node_name b) = Num i"
  shows "compareEntries coll a b = Num (coll (node_name a) (node_name b))"
  using assms by (simp add: compareEntries_def to_double_0)

text \<open>
  Two unnumbered names both weigh infinity, and infinity minus infinity is NaN, which is
  not 0: the comparator returns NaN and never asks the collator.
\<close>

lemma compareEntries_both_unnumbered:
  assumes "getLeadingNumberWeight (node_name a) = PlusInf"
    and "getLeadingNumberWeight (node_name b) = PlusInf"
  shows "compareEntries coll a b = NaN"
  using assms by (simp add: compareEntries_def)

text \<open>
  Claim C3: siblings are sorted by ascending weight, two entries of equal weight are
  ordered by the collator on their names, and unnumbered entries come after numbered ones.
  The code at a listing that gives \<open>b\<close> before \<open>a\<close>: the two weights are equal, the collator
  puts \<open>a\<close> first, the comparator answers NaN, and the sort leaves \<open>b\<close> before \<open>a\<close>.
\<close>

theorem unnumbered_names_not_collated:
  "compareEntries codepoint_collator (Directory (ascii ''b'') (ascii ''videos/b'') 0 [])
                                     (Directory (ascii ''a'') (ascii ''videos/a'') 0 []) = NaN
   \<and> 0 < codepoint_collator (ascii ''b'') (ascii ''a'')
   \<and> array_sort (compareEntries codepoint_collator)
        [Directory (ascii ''b'') (ascii ''videos/b'') 0 [],
         Directory (ascii ''a'') (ascii ''videos/a'') 0 []]
      = [Directory (ascii ''b'') (ascii ''videos/b'') 0 [],
         Directory (ascii ''a'') (ascii ''videos/a'') 0 []]"
  by (simp add: compareEntries_def getLeadingNumberWeight_def trim_def ascii_def
                is_whitespace_def is_digit_def array_sort_def Let_def)

section \<open>Indexer: names and extensions\<close>

lemma basename_snoc: "basename (fullPath @ [nm]) = nm"
  by (simp add: basename_def)

lemma lower_code_m: "(lower_code c = 0x6D) = (c \<in> {0x6D, 0x4D})"
  by (auto simp: lower_code_def)

lemma lower_code_p: "(lower_code c = 0x70) = (c \<in> {0x70, 0x50})"
  by (auto simp: lower_code_def)

lemma lower_code_4: "(lower_code c = 0x34) = (c = 0x34)"
  by (auto simp: lower_code_def)

lemma ascii_mp4: "ascii ''.mp4'' = [0x2E, 0x6D, 0x70, 0x34]"
  by (simp add: ascii_def)

lemma mp4_check_iff:
  "(toLowerCase (extname nm) = ascii ''.mp4'') = has_mp4_extension nm"
proof
  assume h: "has_mp4_extension nm"
  then obtain c3 c2 c1 c0 c stem where r: "rev nm = c3 # c2 # c1 # c0 # c # stem"
    and cs: "c3 = 0x34" "c2 \<in> {0x70, 0x50}" "c1 \<in> {0x6D, 0x4D}" "c0 = 0x2E"
    by (auto simp: has_mp4_extension_def split: list.splits)
  have "rev (rev nm) = rev stem @ [c, c0, c1, c2, c3]"
    by (simp add: r)
  then have nm: "nm = rev stem @ [c, c0, c1, c2, c3]" by simp
  have tw: "takeWhile (\<lambda>x. x \<noteq> 0x2E) (rev nm) = [c3, c2, c1]"
    using cs by (auto simp: r)
  have dot: "0x2E \<in> set nm" using nm cs by simp
  have len: "length nm = length stem + 5" using nm by simp
  show "toLowerCase (extname nm) = ascii ''.mp4''"
    using cs dot len nm
    by (auto simp: extname_def tw Let_def toLowerCase_def ascii_mp4 lower_code_def)
next
  assume a: "toLowerCase (extname nm) = ascii ''.mp4''"
  then have ne: "extname nm \<noteq> []" by (auto simp: toLowerCase_def ascii_mp4)
  let ?t = "takeWhile (\<lambda>x. x \<noteq> 0x2E) (rev nm)"
  have dot: "0x2E \<in> set nm" using ne by (auto simp: extname_def split: if_splits)
  have ext: "extname nm = 0x2E # rev ?t" and stem: "take (length nm - Suc (length ?t)) nm \<noteq> []"
    using ne dot by (auto simp: extname_def Let_def split: if_splits)
  from a ext have "map lower_code (rev ?t) = [0x6D, 0x70, 0x34]"
    by (simp add: toLowerCase_def ascii_mp4 lower_code_def)
  then obtain c1 c2 c3 where t: "rev ?t = [c1, c2, c3]"
    and l: "lower_code c1 = 0x6D" "lower_code c2 = 0x70" "lower_code c3 = 0x34"
    by (auto simp: map_eq_Cons_conv)
  then have "rev (rev ?t) = [c3, c2, c1]" by simp
  then have t': "?t = [c3, c2, c1]" by simp
  have "rev nm = ?t @ dropWhile (\<lambda>x. x \<noteq> 0x2E) (rev nm)" by simp
  moreover have "dropWhile (\<lambda>x. x \<noteq> 0x2E) (rev nm) \<noteq> []"
    using dot by simp
  moreover have "hd (dropWhile (\<lambda>x. x \<noteq> 0x2E) (rev nm)) = 0x2E"
    using hd_dropWhile [of "\<lambda>x. x \<noteq> 0x2E" "rev nm"] calculation(2) by auto
  ultimately obtain rest where r: "rev nm = [c3, c2, c1] @ 0x2E # rest"
    using t' by (metis list.collapse)
  have "length (rev nm) = length rest + 4"
    by (simp add: r)
  then have "rest \<noteq> []" using stem t' by auto
  then obtain c stem' where "rest = c # stem'" by (cases rest) auto
  then show "has_mp4_extension nm"
    using r l by (simp add: has_mp4_extension_def lower_code_m lower_code_p lower_code_4)
qed

lemmas walk_eval =
  starts_with_dot_def basename_def extname_def toLowerCase_def lower_code_def
  manifest_path_def array_sort_def compareEntries_def getLeadingNumberWeight_def trim_def
  is_whitespace_def is_digit_def ascii_def Let_def

section \<open>Indexer: video counts\<close>

lemma sum_list_sort_insert:
  "sum_list (map f (sort_insert cmp x ys)) = (f x :: nat) + sum_list (map f ys)"
  by (induction ys) simp_all

lemma sum_list_array_sort:
  "sum_list (map f (array_sort cmp xs)) = sum_list (map (f :: 'a \<Rightarrow> nat) xs)"
  by (induction xs) (simp_all add: array_sort_def sum_list_sort_insert)

lemma set_sort_insert: "set (sort_insert cmp x ys) = insert x (set ys)"
  by (induction ys) auto

lemma set_array_sort: "set (array_sort cmp xs) = set xs"
  by (induction xs) (simp_all add: array_sort_def set_sort_insert)

lemma foldl_videoCount:
  "foldl (\<lambda>tot child. tot + videoCount child) a xs = a + sum_list (map videoCount xs)"
  by (induction xs arbitrary: a) simp_all

lemma length_concat_video_nodes:
  "length (concat (map video_nodes xs)) = sum_list (map (\<lambda>n. length (video_nodes n)) xs)"
  by (induction xs) simp_all

lemma counts_consistent_leaves:
  "counts_consistent n \<Longrightarrow> videoCount n = length (video_nodes n)"
  by (cases n) simp_all

lemma build_counts:
  "buildNode coll fullPath obj = Inr r \<Longrightarrow>
     (case r of
        None \<Rightarrow> count_obj (basename fullPath) obj = 0
      | Some n \<Rightarrow> counts_consistent n \<and> videoCount n = count_obj (basename fullPath) obj)"
  "buildChildren coll fullPath entries = Inr pushed \<Longrightarrow>
     list_all counts_consistent pushed
     \<and> sum_list (map videoCount pushed) = count_listing entries"
proof (induction coll fullPath obj and coll fullPath entries arbitrary: r and pushed
       rule: buildNode_buildChildren.induct)
  case (3 coll fullPath entries)
  then obtain pushed where p: "buildChildren coll fullPath entries = Inr pushed"
    by (cases "buildChildren coll fullPath entries") auto
  note ih = "3.IH" [OF p]
  let ?ch = "array_sort (compareEntries coll) pushed"
  have all: "list_all counts_consistent ?ch"
    using ih by (simp add: list_all_iff set_array_sort)
  have "sum_list (map (\<lambda>n. length (video_nodes n)) ?ch) = sum_list (map videoCount ?ch)"
    using all by (intro arg_cong [where f = sum_list] map_cong refl)
                 (simp add: list_all_iff counts_consistent_leaves)
  then have leaves: "length (concat (map video_nodes ?ch)) = sum_list (map videoCount ?ch)"
    by (simp add: length_concat_video_nodes)
  have r: "r = Some (Directory (basename fullPath) (manifest_path fullPath)
                       (sum_list (map videoCount ?ch)) ?ch)"
    using "3.prems" p by (simp add: Let_def foldl_videoCount)
  show ?case using ih all leaves
    by (simp add: r sum_list_array_sort)
next
  case (4 coll fullPath sz)
  then show ?case by (auto simp: mp4_check_iff split: if_splits)
next
  case (7 coll fullPath nm obj rest)
  show ?case
  proof (cases "starts_with_dot nm")
    case True
    then show ?thesis using 7 by simp
  next
    case False
    from "7.prems" False obtain childNode rest' where
      c: "buildNode coll (fullPath @ [nm]) obj = Inr childNode"
      and rs: "buildChildren coll fullPath rest = Inr rest'"
      and pushed: "pushed = (case childNode of Some n \<Rightarrow> n # rest' | None \<Rightarrow> rest')"
      by (auto split: sum.splits)
    note ih1 = "7.IH"(2) [OF False c]
    note ih2 = "7.IH"(3) [OF False c rs]
    show ?thesis using ih1 ih2 False
      by (cases childNode) (simp_all add: pushed basename_snoc)
  qed
qed simp_all

text \<open>
  Claim C1.  For every directory that the indexer walks to the end, in the node that
  \<open>buildNode\<close> returns every Directory node carries the sum of the \<open>videoCount\<close> of its
  immediate children, and the \<open>videoCount\<close> of the node is the number of files with the
  extension \<open>.mp4\<close>, in any case, below the directory, entries whose name starts with a
  dot and all below them left out.
\<close>

theorem videoCount_counts_mp4_files:
  assumes "buildNode coll fullPath (Dir entries) = Inr (Some n)"
  shows "counts_consistent n \<and> videoCount n = count_listing entries"
  using build_counts(1) [OF assms] by simp

lemma example_listing_built:
  "buildNode codepoint_collator [] (Dir example_listing) =
     Inr (Some (Directory (ascii ''videos'') (ascii ''videos'') 2
       [Directory (ascii ''b'') (ascii ''videos/b'') 1
          [Video (ascii ''x.MP4'') (ascii ''videos/b/x.MP4'') 3],
        Video (ascii ''top.mp4'') (ascii ''videos/top.mp4'') 7]))"
  by (simp add: example_listing_def walk_eval)

text \<open>
  The theorem at a root with a folder of three files, a hidden folder and a video.
\<close>

theorem videoCount_counts_mp4_files_witness:
  "buildNode codepoint_collator [] (Dir example_listing) =
     Inr (Some (Directory (ascii ''videos'') (ascii ''videos'') 2
       [Directory (ascii ''b'') (ascii ''videos/b'') 1
          [Video (ascii ''x.MP4'') (ascii ''videos/b/x.MP4'') 3],
        Video (ascii ''top.mp4'') (ascii ''videos/top.mp4'') 7]))
   \<and> count_listing example_listing = 2"
  using videoCount_counts_mp4_files [OF example_listing_built] example_listing_built
  by simp

section \<open>Indexer: what the walk keeps\<close>








section \<open>Indexer: when a run fails\<close>

lemma buildNode_Dir_cases:
  "(\<exists>err. buildNode coll fullPath (Dir entries) = Inl err)
   \<or> (\<exists>c ch. buildNode coll fullPath (Dir entries) =
         Inr (Some (Directory (basename fullPath) (manifest_path fullPath) c ch)))"
  by (cases "buildChildren coll fullPath entries") (simp_all add: Let_def)

lemma main_after_check:
  assumes "ensureVideosDir videosDir = Inr ()"
  shows "buildNode coll [] videosDir \<noteq> Inr None"
proof (cases videosDir)
  case (Dir entries)
  then show ?thesis using buildNode_Dir_cases [of coll "[]" entries] by auto
qed (use assms in \<open>simp_all add: ensureVideosDir_def\<close>)

lemma build_errors_are_io:
  "buildNode coll fullPath obj = Inl err \<Longrightarrow> io_error err"
  "buildChildren coll fullPath entries = Inl err \<Longrightarrow> io_error err"
proof (induction coll fullPath obj and coll fullPath entries arbitrary: err and err
       rule: buildNode_buildChildren.induct)
  case (7 coll fullPath nm obj rest)
  then show ?case
    by (auto split: sum.splits if_splits)
qed (auto simp: Let_def split: sum.splits if_splits)

lemma main_empty_root:
  "main coll True (Dir []) = \<lparr>exitCode = 0, thrown = None, written = Some []\<rparr>"
  by (simp add: main_def ensureVideosDir_def array_sort_def node_children_def)

text \<open>
  Claim C5, as amended.  A run fails (exit code 1, no manifest written) if and only if the
  check of the root directory fails, or a \<open>stat\<close> or \<open>readdir\<close> during the walk fails, or
  the manifest cannot be written; it never fails for want of a root node.  When the root
  directory exists and has no entries, the run succeeds and writes a manifest with no
  categories.
\<close>

theorem main_failure_cases:
  "(exitCode (main coll writable videosDir) \<noteq> 0) =
      (ensureVideosDir videosDir = Inl VideosDirNotFound
       \<or> (\<exists>err. buildNode coll [] videosDir = Inl err)
       \<or> \<not> writable)
   \<and> (written (main coll writable videosDir) = None) =
       (exitCode (main coll writable videosDir) \<noteq> 0)
   \<and> thrown (main coll writable videosDir) \<noteq> Some BuildFailed
   \<and> main coll True (Dir []) = \<lparr>exitCode = 0, thrown = None, written = Some []\<rparr>"
proof (cases "ensureVideosDir videosDir")
  case (Inl e)
  then have "e = VideosDirNotFound"
    by (cases videosDir) (simp_all add: ensureVideosDir_def)
  then show ?thesis using Inl
    by (simp add: main_empty_root) (simp add: main_def)
next
  case (Inr u)
  then have ok: "ensureVideosDir videosDir = Inr ()" by simp
  show ?thesis
  proof (cases "buildNode coll [] videosDir")
    case (Inl err)
    moreover have "err \<noteq> BuildFailed"
      using build_errors_are_io(1) [OF Inl] by auto
    ultimately show ?thesis using ok by (simp add: main_empty_root) (simp add: main_def)
  next
    case r: (Inr res)
    then obtain n where "res = Some n"
      using main_after_check [OF ok, of coll] by (cases res) auto
    then show ?thesis using ok r
      by (simp add: main_empty_root) (simp add: main_def)
  qed
qed

text \<open>
  The theorem at a root with one video, at a root that is a file, and at a root with an
  entry that cannot be examined.
\<close>

theorem main_failure_cases_witness:
  "main codepoint_collator True (Dir [(ascii ''clip.mp4'', RegularFile 9)])
     = \<lparr>exitCode = 0, thrown = None,
        written = Some [Video (ascii ''clip.mp4'') (ascii ''videos/clip.mp4'') 9]\<rparr>
   \<and> exitCode (main codepoint_collator True (RegularFile 9)) = 1
   \<and> exitCode (main codepoint_collator True (Dir [(ascii ''lost'', StatError)])) = 1"
  using main_failure_cases [of codepoint_collator True "Dir [(ascii ''clip.mp4'', RegularFile 9)]"]
    main_failure_cases [of codepoint_collator True "RegularFile 9"]
    main_failure_cases [of codepoint_collator True "Dir [(ascii ''lost'', StatError)]"]
  by (simp add: main_def ensureVideosDir_def starts_with_dot_def basename_def extname_def
                toLowerCase_def lower_code_def manifest_path_def array_sort_def
                node_children_def ascii_def Let_def)

text \<open>
  Claim C5 as stated fails: the empty root directory passes the check, and the run ends
  with exit code 0 and a written manifest.
\<close>

theorem main_empty_root_counterexample:
  "ensureVideosDir (Dir []) = Inr ()
   \<and> main codepoint_collator True (Dir []) = \<lparr>exitCode = 0, thrown = None, written = Some []\<rparr>"
  by (simp add: main_def ensureVideosDir_def array_sort_def node_children_def)

section \<open>Insertion-ordered sets\<close>

lemma fold_set_add_distinct:
  "distinct (acc @ xs) \<Longrightarrow> fold set_add xs acc = acc @ xs"
  by (induction xs arbitrary: acc) (auto simp: set_add_def set_has_def)

lemma new_Set_distinct: "distinct xs \<Longrightarrow> new_Set xs = xs"
  using fold_set_add_distinct [of "[]" xs] by (simp add: new_Set_def)

lemma set_fold_set_add: "set (fold set_add xs acc) = set acc \<union> set xs"
  by (induction xs arbitrary: acc) (auto simp: set_add_def set_has_def)

lemma distinct_fold_set_add: "distinct acc \<Longrightarrow> distinct (fold set_add xs acc)"
  by (induction xs arbitrary: acc) (auto simp: set_add_def set_has_def)

lemma set_new_Set: "set (new_Set xs) = set xs"
  by (simp add: new_Set_def set_fold_set_add)

lemma length_filter_eq_iff:
  "(length (filter P xs) = length xs) = (\<forall>x\<in>set xs. P x)"
  by (metis filter_id_conv filter_True sum_length_filter_compl add_cancel_right_right
      length_0_conv filter_empty_conv)

section \<open>Viewer: pruning leaves valid paths\<close>

lemma prune_subset:
  "set (completedVideos (pruneCompletedVideos s))
     \<subseteq> set (validVideoPaths (pruneCompletedVideos s))"
proof -
  let ?P = "\<lambda>p. set_has p (validVideoPaths s)"
  let ?f = "filter ?P (completedVideos s)"
  show ?thesis
  proof (cases "length ?f = length (completedVideos s)")
    case True
    have all: "\<forall>x\<in>set (completedVideos s). ?P x"
      using True length_filter_eq_iff [of ?P "completedVideos s"] by simp
    have "pruneCompletedVideos s = s"
      by (simp add: pruneCompletedVideos_def Let_def True)
    then show ?thesis using all by (auto simp: set_has_def)
  next
    case False
    have "pruneCompletedVideos s =
            persistCompletedVideos (s\<lparr>completedVideos := new_Set ?f\<rparr>)"
      by (simp add: pruneCompletedVideos_def Let_def False)
    then show ?thesis
      by (auto simp: set_has_def persistCompletedVideos_def set_new_Set)
  qed
qed

lemma prune_noop:
  assumes "set (completedVideos s) \<subseteq> set (validVideoPaths s)"
  shows "pruneCompletedVideos s = s"
proof -
  have "filter (\<lambda>path. set_has path (validVideoPaths s)) (completedVideos s) = completedVideos s"
    using assms by (auto simp: filter_id_conv set_has_def)
  then show ?thesis by (simp add: pruneCompletedVideos_def Let_def)
qed

lemma load_manifest_total: "totalVideos (load_manifest cats t) = fst (collectVideoStats cats)"
  by (simp add: load_manifest_def pruneCompletedVideos_def persistCompletedVideos_def Let_def)

lemma load_manifest_valid:
  "validVideoPaths (load_manifest cats t) = snd (collectVideoStats cats)"
  by (simp add: load_manifest_def pruneCompletedVideos_def persistCompletedVideos_def Let_def)

lemma load_manifest_categories: "categories (load_manifest cats t) = cats"
  by (simp add: load_manifest_def pruneCompletedVideos_def persistCompletedVideos_def Let_def)

lemma load_manifest_idem: "load_manifest cats (load_manifest cats s) = load_manifest cats s"
proof -
  let ?s1 = "load_manifest cats s"
  have sub: "set (completedVideos ?s1) \<subseteq> set (validVideoPaths ?s1)"
    unfolding load_manifest_def Let_def by (rule prune_subset)
  have same: "?s1\<lparr>categories := cats, totalVideos := fst (collectVideoStats cats),
                  validVideoPaths := snd (collectVideoStats cats)\<rparr> = ?s1"
    by (simp add: load_manifest_categories load_manifest_total load_manifest_valid)
  have "load_manifest cats ?s1 = pruneCompletedVideos ?s1"
    by (simp add: load_manifest_def [of cats ?s1] Let_def same)
  then show ?thesis using prune_noop [OF sub] by simp
qed

section \<open>Viewer: statistics of a manifest\<close>

lemma truthy_paths_append: "truthy_paths (xs @ ys) = truthy_paths xs @ truthy_paths ys"
  by (simp add: truthy_paths_def)

lemma fold_visit_eq:
  assumes "\<And>n acc. n \<in> set ns \<Longrightarrow>
             visit n acc = (fst acc + length (video_nodes n),
                            fold set_add (truthy_paths (video_nodes n)) (snd acc))"
  shows "fold visit ns acc =
           (fst acc + length (concat (map video_nodes ns)),
            fold set_add (truthy_paths (concat (map video_nodes ns))) (snd acc))"
  using assms
  by (induction ns arbitrary: acc) (simp_all add: truthy_paths_append truthy_paths_def[of "[]"])

lemma visit_eq:
  "visit n acc = (fst acc + length (video_nodes n),
                  fold set_add (truthy_paths (video_nodes n)) (snd acc))"
proof (induction n arbitrary: acc)
  case (Directory nm p c ch)
  show ?case using fold_visit_eq [of ch, OF Directory.IH] by simp
next
  case (Video nm p sz)
  show ?case by (cases acc) (simp add: truthy_paths_def)
qed

lemma collectVideoStats_eq:
  "collectVideoStats cats =
     (length (all_video_nodes cats), new_Set (truthy_paths (all_video_nodes cats)))"
  using fold_visit_eq [of cats "(0, [])", OF visit_eq]
  by (simp add: collectVideoStats_def all_video_nodes_def new_Set_def)

text \<open>Every manifest that the indexer writes has a path on every Video node.\<close>

lemma manifest_path_nonempty: "manifest_path fullPath \<noteq> []"
  by (simp add: manifest_path_def Let_def ascii_def)

lemma build_paths_present:
  "buildNode coll fullPath obj = Inr (Some n) \<Longrightarrow>
     list_all (\<lambda>v. node_path v \<noteq> []) (video_nodes n)"
  "buildChildren coll fullPath entries = Inr pushed \<Longrightarrow>
     list_all (\<lambda>v. node_path v \<noteq> []) (concat (map video_nodes pushed))"
proof (induction coll fullPath obj and coll fullPath entries arbitrary: n and pushed
       rule: buildNode_buildChildren.induct)
  case (3 coll fullPath entries)
  then obtain pushed where p: "buildChildren coll fullPath entries = Inr pushed"
    by (cases "buildChildren coll fullPath entries") auto
  have n: "n = Directory (basename fullPath) (manifest_path fullPath)
                 (foldl (\<lambda>tot child. tot + videoCount child) 0
                    (array_sort (compareEntries coll) pushed))
                 (array_sort (compareEntries coll) pushed)"
    using "3.prems" p by (simp add: Let_def)
  show ?case using "3.IH" [OF p]
    by (simp add: n list_all_iff set_array_sort)
next
  case (4 coll fullPath sz)
  then show ?case by (auto simp: manifest_path_nonempty split: if_splits)
next
  case (7 coll fullPath nm obj rest)
  show ?case
  proof (cases "starts_with_dot nm")
    case True
    then show ?thesis using 7 by simp
  next
    case False
    from "7.prems" False obtain childNode rest' where
      c: "buildNode coll (fullPath @ [nm]) obj = Inr childNode"
      and rs: "buildChildren coll fullPath rest = Inr rest'"
      and pushed: "pushed = (case childNode of Some n \<Rightarrow> n # rest' | None \<Rightarrow> rest')"
      by (auto split: sum.splits)
    show ?thesis
    proof (cases childNode)
      case None
      then show ?thesis using "7.IH"(3) [OF False c rs] by (simp add: pushed)
    next
      case (Some m)
      then show ?thesis
        using "7.IH"(2) [OF False, of m] c "7.IH"(3) [OF False c rs] by (simp add: pushed)
    qed
  qed
qed simp_all

lemma written_manifest_paths_present:
  assumes "written (main coll writable videosDir) = Some cats"
  shows "video_paths_present cats"
proof (cases "ensureVideosDir videosDir")
  case (Inl e)
  then show ?thesis using assms by (simp add: main_def)
next
  case (Inr u)
  show ?thesis
  proof (cases "buildNode coll [] videosDir")
    case (Inl err)
    then show ?thesis using assms Inr by (simp add: main_def)
  next
    case r: (Inr res)
    show ?thesis
    proof (cases res)
      case None
      then show ?thesis using assms Inr r by (simp add: main_def)
    next
      case (Some rootNode)
      then have c: "cats = node_children rootNode"
        using assms Inr r by (simp add: main_def split: if_splits)
      have "list_all (\<lambda>v. node_path v \<noteq> []) (video_nodes rootNode)"
        using build_paths_present(1) r Some by blast
      then show ?thesis
        by (cases rootNode)
           (simp_all add: c node_children_def video_paths_present_def all_video_nodes_def)
    qed
  qed
qed

text \<open>
  Claim C6.  For every manifest, \<open>collectVideoStats\<close> returns a total equal to the number
  of Video nodes of the whole tree, and a set holding the path of every Video node and
  nothing else, in the order of first occurrence and without duplicates: Directory nodes
  contribute only through their children.  Loading the same manifest a second time leaves
  \<open>totalVideos\<close>, \<open>validVideoPaths\<close> and the rest of the state as they are.
\<close>

theorem collectVideoStats_total_and_paths:
  assumes "video_paths_present cats"
  shows "fst (collectVideoStats cats) = length (all_video_nodes cats)
   \<and> set (snd (collectVideoStats cats)) = node_path ` set (all_video_nodes cats)
   \<and> snd (collectVideoStats cats) = new_Set (map node_path (all_video_nodes cats))
   \<and> distinct (snd (collectVideoStats cats))
   \<and> totalVideos (load_manifest cats (load_manifest cats s)) = totalVideos (load_manifest cats s)
   \<and> validVideoPaths (load_manifest cats (load_manifest cats s)) =
       validVideoPaths (load_manifest cats s)
   \<and> load_manifest cats (load_manifest cats s) = load_manifest cats s"
proof -
  have t: "truthy_paths (all_video_nodes cats) = map node_path (all_video_nodes cats)"
    using assms
    by (simp add: truthy_paths_def video_paths_present_def list_all_iff filter_id_conv)
  have "distinct (snd (collectVideoStats cats))"
    by (simp add: collectVideoStats_eq new_Set_def distinct_fold_set_add)
  then show ?thesis
    by (simp add: collectVideoStats_eq t set_new_Set load_manifest_idem)
qed

lemma example_listing_written:
  "written (main codepoint_collator True (Dir example_listing)) =
     Some [Directory (ascii ''b'') (ascii ''videos/b'') 1
             [Video (ascii ''x.MP4'') (ascii ''videos/b/x.MP4'') 3],
           Video (ascii ''top.mp4'') (ascii ''videos/top.mp4'') 7]"
  by (simp add: main_def ensureVideosDir_def example_listing_built node_children_def
           del: buildNode.simps)

text \<open>
  The theorem at the manifest that the indexer writes for a root with a folder of three
  files, a hidden folder and a video.
\<close>

theorem collectVideoStats_total_and_paths_witness:
  "video_paths_present
     [Directory (ascii ''b'') (ascii ''videos/b'') 1
        [Video (ascii ''x.MP4'') (ascii ''videos/b/x.MP4'') 3],
      Video (ascii ''top.mp4'') (ascii ''videos/top.mp4'') 7]
   \<and> fst (collectVideoStats
        [Directory (ascii ''b'') (ascii ''videos/b'') 1
           [Video (ascii ''x.MP4'') (ascii ''videos/b/x.MP4'') 3],
         Video (ascii ''top.mp4'') (ascii ''videos/top.mp4'') 7]) = 2
   \<and> snd (collectVideoStats
        [Directory (ascii ''b'') (ascii ''videos/b'') 1
           [Video (ascii ''x.MP4'') (ascii ''videos/b/x.MP4'') 3],
         Video (ascii ''top.mp4'') (ascii ''videos/top.mp4'') 7])
       = [ascii ''videos/b/x.MP4'', ascii ''videos/top.mp4'']"
  using collectVideoStats_total_and_paths
          [OF written_manifest_paths_present [OF example_listing_written]]
        written_manifest_paths_present [OF example_listing_written]
  by (simp add: all_video_nodes_def new_Set_def set_add_def set_has_def ascii_def)

text \<open>
  The guard on \<open>node.path\<close>: a Video node without a path, which the indexer never
  writes, counts in the total and adds no path.
\<close>

lemma collectVideoStats_skips_empty_path:
  "collectVideoStats [Video (ascii ''a.mp4'') [] 7] = (1, [])"
  by (simp add: collectVideoStats_def)

section \<open>Viewer: pruning at load\<close>

lemma prune_effect:
  assumes "distinct (completedVideos s)"
  shows "completedVideos (pruneCompletedVideos s) =
           filter (\<lambda>p. p \<in> set (validVideoPaths s)) (completedVideos s)
       \<and> setItemLog (pruneCompletedVideos s) =
           (if \<exists>p\<in>set (completedVideos s). p \<notin> set (validVideoPaths s)
            then setItemLog s @ [filter (\<lambda>p. p \<in> set (validVideoPaths s)) (completedVideos s)]
            else setItemLog s)"
proof -
  let ?f = "filter (\<lambda>p. p \<in> set (validVideoPaths s)) (completedVideos s)"
  have d: "distinct ?f" using assms by simp
  show ?thesis
  proof (cases "\<exists>p\<in>set (completedVideos s). p \<notin> set (validVideoPaths s)")
    case True
    then have "length ?f \<noteq> length (completedVideos s)"
      using length_filter_eq_iff [of "\<lambda>p. p \<in> set (validVideoPaths s)" "completedVideos s"]
      by blast
    then show ?thesis using True d
      by (simp add: pruneCompletedVideos_def set_has_def persistCompletedVideos_def
                    new_Set_distinct Let_def)
  next
    case False
    then have "?f = completedVideos s" by (simp add: filter_id_conv)
    then show ?thesis using False
      by (simp add: pruneCompletedVideos_def set_has_def Let_def)
  qed
qed

text \<open>
  Claim C7.  For every completed-set and manifest, pruning removes exactly the paths that
  are not in \<open>validVideoPaths\<close>, keeping the others in their order, and the reduced set is
  written to the store exactly once if at least one path was removed and not at all
  otherwise; so it is when the manifest is loaded, where \<open>validVideoPaths\<close> are the paths
  collected from that manifest.
\<close>

theorem prune_removes_exactly_invalid:
  assumes "distinct (completedVideos s)"
  shows "completedVideos (pruneCompletedVideos s) =
           filter (\<lambda>p. p \<in> set (validVideoPaths s)) (completedVideos s)
       \<and> setItemLog (pruneCompletedVideos s) =
           (if \<exists>p\<in>set (completedVideos s). p \<notin> set (validVideoPaths s)
            then setItemLog s @ [filter (\<lambda>p. p \<in> set (validVideoPaths s)) (completedVideos s)]
            else setItemLog s)
       \<and> completedVideos (load_manifest cats s) =
           filter (\<lambda>p. p \<in> set (snd (collectVideoStats cats))) (completedVideos s)
       \<and> setItemLog (load_manifest cats s) =
           (if \<exists>p\<in>set (completedVideos s). p \<notin> set (snd (collectVideoStats cats))
            then setItemLog s @ [completedVideos (load_manifest cats s)]
            else setItemLog s)"
proof -
  let ?s' = "s\<lparr>categories := cats, totalVideos := fst (collectVideoStats cats),
                validVideoPaths := snd (collectVideoStats cats)\<rparr>"
  have l: "load_manifest cats s = pruneCompletedVideos ?s'"
    by (simp add: load_manifest_def Let_def)
  have d: "distinct (completedVideos ?s')" using assms by simp
  show ?thesis
    using prune_effect [OF assms] prune_effect [OF d] by (simp add: l)
qed

text \<open>
  The theorem at a stored completed-set of three paths and a manifest that has two of them:
  the second path goes, and the two others are written once.
\<close>

theorem prune_removes_exactly_invalid_witness:
  "distinct (completedVideos
      \<lparr>categories = [], completedVideos = [ascii ''videos/a.mp4'', ascii ''videos/gone.mp4'',
         ascii ''videos/b.mp4''], totalVideos = 0, validVideoPaths = [], setItemLog = []\<rparr>)
   \<and> completedVideos (load_manifest
        [Video (ascii ''b.mp4'') (ascii ''videos/b.mp4'') 5,
         Video (ascii ''a.mp4'') (ascii ''videos/a.mp4'') 7]
      \<lparr>categories = [], completedVideos = [ascii ''videos/a.mp4'', ascii ''videos/gone.mp4'',
         ascii ''videos/b.mp4''], totalVideos = 0, validVideoPaths = [], setItemLog = []\<rparr>)
     = [ascii ''videos/a.mp4'', ascii ''videos/b.mp4'']
   \<and> setItemLog (load_manifest
        [Video (ascii ''b.mp4'') (ascii ''videos/b.mp4'') 5,
         Video (ascii ''a.mp4'') (ascii ''videos/a.mp4'') 7]
      \<lparr>categories = [], completedVideos = [ascii ''videos/a.mp4'', ascii ''videos/gone.mp4'',
         ascii ''videos/b.mp4''], totalVideos = 0, validVideoPaths = [], setItemLog = []\<rparr>)
     = [[ascii ''videos/a.mp4'', ascii ''videos/b.mp4'']]"
  using prune_removes_exactly_invalid
    [of "\<lparr>categories = [], completedVideos = [ascii ''videos/a.mp4'', ascii ''videos/gone.mp4'',
         ascii ''videos/b.mp4''], totalVideos = 0, validVideoPaths = [], setItemLog = []\<rparr>"
        "[Video (ascii ''b.mp4'') (ascii ''videos/b.mp4'') 5,
          Video (ascii ''a.mp4'') (ascii ''videos/a.mp4'') 7]"]
  by (simp add: collectVideoStats_def set_add_def set_has_def ascii_def)

section \<open>Viewer: toggling completion\<close>

text \<open>
  Claim C8.  For every path and flag, \<open>toggleVideoCompletion\<close> changes nothing, so the
  completed-set stays as it is and nothing is written, when the path is empty or not in
  \<open>validVideoPaths\<close>.  Otherwise the completed-set gains the path when the flag is set and
  loses it when the flag is cleared, and the whole resulting set is written to the store as
  a list, once.
\<close>

theorem toggleVideoCompletion_effect:
  "(path = [] \<or> path \<notin> set (validVideoPaths s) \<longrightarrow> toggleVideoCompletion path flag s = s)
   \<and> (path \<noteq> [] \<and> path \<in> set (validVideoPaths s) \<longrightarrow>
        set (completedVideos (toggleVideoCompletion path flag s)) =
          (if flag then insert path (set (completedVideos s))
           else set (completedVideos s) - {path})
        \<and> setItemLog (toggleVideoCompletion path flag s) =
            setItemLog s @ [completedVideos (toggleVideoCompletion path flag s)])"
proof (cases "path = [] \<or> path \<notin> set (validVideoPaths s)")
  case True
  then show ?thesis by (auto simp: toggleVideoCompletion_def set_has_def)
next
  case False
  then have t: "toggleVideoCompletion path flag s =
      persistCompletedVideos (s\<lparr>completedVideos :=
                  (if flag then set_add path (completedVideos s)
                   else set_delete path (completedVideos s))\<rparr>)"
    by (simp add: toggleVideoCompletion_def set_has_def)
  show ?thesis using False unfolding t
    by (cases flag)
       (simp_all add: persistCompletedVideos_def set_add_def set_has_def set_delete_def
                      insert_absorb)
qed

text \<open>
  The theorem at a state with one valid path: marking that path writes the set once, and
  marking a path the manifest does not have leaves the state alone.
\<close>

theorem toggleVideoCompletion_effect_witness:
  "toggleVideoCompletion (ascii ''videos/x.mp4'') True
      \<lparr>categories = [], completedVideos = [], totalVideos = 1,
       validVideoPaths = [ascii ''videos/a.mp4''], setItemLog = []\<rparr>
     = \<lparr>categories = [], completedVideos = [], totalVideos = 1,
        validVideoPaths = [ascii ''videos/a.mp4''], setItemLog = []\<rparr>
   \<and> completedVideos (toggleVideoCompletion (ascii ''videos/a.mp4'') True
      \<lparr>categories = [], completedVideos = [], totalVideos = 1,
       validVideoPaths = [ascii ''videos/a.mp4''], setItemLog = []\<rparr>)
     = [ascii ''videos/a.mp4'']
   \<and> setItemLog (toggleVideoCompletion (ascii ''videos/a.mp4'') True
      \<lparr>categories = [], completedVideos = [], totalVideos = 1,
       validVideoPaths = [ascii ''videos/a.mp4''], setItemLog = []\<rparr>)
     = [[ascii ''videos/a.mp4'']]"
  using toggleVideoCompletion_effect
    [of "ascii ''videos/x.mp4''"
        "\<lparr>categories = [], completedVideos = [], totalVideos = 1,
          validVideoPaths = [ascii ''videos/a.mp4''], setItemLog = []\<rparr>" True]
    toggleVideoCompletion_effect
    [of "ascii ''videos/a.mp4''"
        "\<lparr>categories = [], completedVideos = [], totalVideos = 1,
          validVideoPaths = [ascii ''videos/a.mp4''], setItemLog = []\<rparr>" True]
  by (simp add: ascii_def toggleVideoCompletion_def set_has_def set_add_def
                persistCompletedVideos_def)

section \<open>Viewer: the completed-set stays within the valid paths\<close>

lemma toggle_valid: "validVideoPaths (toggleVideoCompletion p f s) = validVideoPaths s"
  by (simp add: toggleVideoCompletion_def persistCompletedVideos_def)

lemma toggle_subset:
  "set (completedVideos s) \<subseteq> set (validVideoPaths s) \<Longrightarrow>
   set (completedVideos (toggleVideoCompletion p f s)) \<subseteq> set (validVideoPaths s)"
  by (auto simp: toggleVideoCompletion_def set_has_def set_add_def set_delete_def
                 persistCompletedVideos_def)

lemma run_toggles_Nil: "run_toggles [] s = s"
  by (simp add: run_toggles_def)

lemma run_toggles_Cons:
  "run_toggles ((p, f) # calls) s = run_toggles calls (toggleVideoCompletion p f s)"
  by (simp add: run_toggles_def)

lemma run_toggles_valid:
  "validVideoPaths (run_toggles calls s) = validVideoPaths s"
proof (induction calls arbitrary: s)
  case Nil
  show ?case by (simp add: run_toggles_Nil)
next
  case (Cons c calls)
  obtain p f where c: "c = (p, f)" by (cases c)
  show ?case by (simp add: c run_toggles_Cons Cons.IH toggle_valid)
qed

lemma run_toggles_subset:
  "set (completedVideos s) \<subseteq> set (validVideoPaths s) \<Longrightarrow>
   set (completedVideos (run_toggles calls s)) \<subseteq> set (validVideoPaths s)"
proof (induction calls arbitrary: s)
  case Nil
  then show ?case by (simp add: run_toggles_Nil)
next
  case (Cons c calls)
  obtain p f where c: "c = (p, f)" by (cases c)
  have "set (completedVideos (toggleVideoCompletion p f s))
          \<subseteq> set (validVideoPaths (toggleVideoCompletion p f s))"
    using toggle_subset [OF Cons.prems] by (simp add: toggle_valid)
  from Cons.IH [OF this] show ?case by (simp add: run_toggles_Cons c toggle_valid)
qed

text \<open>
  Claim C10.  Whatever the completed-set held before, once the manifest is loaded
  (statistics, then pruning) the completed-set is a subset of \<open>validVideoPaths\<close>, and it
  still is after any sequence of \<open>toggleVideoCompletion\<close> calls, for any paths and flags.
\<close>

theorem completed_subset_valid_invariant:
  "set (completedVideos (load_manifest cats s)) \<subseteq> set (validVideoPaths (load_manifest cats s))
   \<and> set (completedVideos (run_toggles calls (load_manifest cats s)))
       \<subseteq> set (validVideoPaths (run_toggles calls (load_manifest cats s)))"
proof -
  have "set (completedVideos (load_manifest cats s))
          \<subseteq> set (validVideoPaths (load_manifest cats s))"
    unfolding load_manifest_def Let_def by (rule prune_subset)
  then show ?thesis
    using run_toggles_subset [of "load_manifest cats s" calls] by (simp add: run_toggles_valid)
qed

text \<open>
  The theorem at a stored completed-set with a stale path, a manifest of one video, and
  three calls: a stale path, the valid path set, the valid path cleared.
\<close>

theorem completed_subset_valid_invariant_witness:
  "completedVideos (load_manifest [Video (ascii ''a.mp4'') (ascii ''videos/a.mp4'') 5]
      \<lparr>categories = [], completedVideos = [ascii ''videos/old.mp4''], totalVideos = 0,
       validVideoPaths = [], setItemLog = []\<rparr>) = []
   \<and> set (completedVideos (run_toggles
        [(ascii ''videos/old.mp4'', True), (ascii ''videos/a.mp4'', True),
         (ascii ''videos/a.mp4'', False)]
        (load_manifest [Video (ascii ''a.mp4'') (ascii ''videos/a.mp4'') 5]
          \<lparr>categories = [], completedVideos = [ascii ''videos/old.mp4''], totalVideos = 0,
           validVideoPaths = [], setItemLog = []\<rparr>)))
       \<subseteq> {ascii ''videos/a.mp4''}"
  using completed_subset_valid_invariant
    [of "[Video (ascii ''a.mp4'') (ascii ''videos/a.mp4'') 5]"
        "\<lparr>categories = [], completedVideos = [ascii ''videos/old.mp4''], totalVideos = 0,
          validVideoPaths = [], setItemLog = []\<rparr>"
        "[(ascii ''videos/old.mp4'', True), (ascii ''videos/a.mp4'', True),
          (ascii ''videos/a.mp4'', False)]"]
  by (simp add: run_toggles_valid load_manifest_valid collectVideoStats_def set_add_def
                set_has_def load_manifest_def pruneCompletedVideos_def
                persistCompletedVideos_def new_Set_def ascii_def)

section \<open>Viewer: progress display\<close>

text \<open>
  \<open>ilog2\<close> is the binary exponent of a positive rational, so \<open>fl\<close> is off by at most
  half a unit in the 53rd significant bit.
\<close>

lemma pow2_powi: "pow2 e = 2 powi e"
  by (simp add: pow2_def power_int_def inverse_eq_divide power_one_over)

lemma pow2_pos: "0 < pow2 e"
  by (simp add: pow2_powi)

lemma pow2_add: "pow2 (a + b) = pow2 a * pow2 b"
  by (simp add: pow2_powi power_int_add)

lemma bitlen_bounds: "0 < n \<Longrightarrow> 2 ^ (bitlen n - 1) \<le> n \<and> n < 2 ^ bitlen n"
proof (induction n rule: bitlen.induct)
  case (1 n)
  show ?case
  proof (cases "n div 2 = 0")
    case True
    with "1.prems" have "n = 1" by (simp add: div_eq_0_iff) 
    then show ?thesis by (simp add: bitlen.simps)
  next
    case False
    then have pos: "0 < n div 2" by simp
    have ih: "2 ^ (bitlen (n div 2) - 1) \<le> n div 2 \<and> n div 2 < 2 ^ bitlen (n div 2)"
      using "1.IH" "1.prems" pos by simp
    have b: "bitlen n = Suc (bitlen (n div 2))"
      using "1.prems" by (simp add: bitlen.simps [of n])
    have bp: "0 < bitlen (n div 2)" using pos by (simp add: bitlen.simps [of "n div 2"])
    then obtain k where k: "bitlen (n div 2) = Suc k" by (cases "bitlen (n div 2)") auto
    show ?thesis using ih by (simp add: b k) linarith
  qed
qed

lemma ilog2_bounds:
  assumes "0 < (q :: rat)"
  shows "pow2 (ilog2 q) \<le> q \<and> q < pow2 (ilog2 q + 1)"
proof -
  obtain a b where ab: "quotient_of q = (a, b)" by (cases "quotient_of q")
  have bpos: "0 < b" using quotient_of_denom_pos [OF ab] .
  have q: "q = of_int a / of_int b" using quotient_of_div [OF ab] .
  have apos: "0 < a"
    using assms bpos by (simp add: q zero_less_divide_iff)
  define la where "la = bitlen (nat a)"
  define lb where "lb = bitlen (nat b)"
  have A: "2 ^ (la - 1) \<le> nat a \<and> nat a < 2 ^ la"
    unfolding la_def using bitlen_bounds [of "nat a"] apos by simp
  have B: "2 ^ (lb - 1) \<le> nat b \<and> nat b < 2 ^ lb"
    unfolding lb_def using bitlen_bounds [of "nat b"] bpos by simp
  have la1: "1 \<le> la" using apos la_def by (simp add: bitlen.simps [of "nat a"])
  have lb1: "1 \<le> lb" using bpos lb_def by (simp add: bitlen.simps [of "nat b"])
  have ra: "(of_int a :: rat) = of_nat (nat a)" using apos by simp
  have rb: "(of_int b :: rat) = of_nat (nat b)" using bpos by simp
  have a_lo: "(2::rat) ^ (la - 1) \<le> of_int a"
    unfolding ra using A by (metis of_nat_le_iff of_nat_numeral of_nat_power)
  have a_hi: "of_int a < (2::rat) ^ la"
    unfolding ra using A by (metis of_nat_less_iff of_nat_numeral of_nat_power)
  have b_lo: "(2::rat) ^ (lb - 1) \<le> of_int b"
    unfolding rb using B by (metis of_nat_le_iff of_nat_numeral of_nat_power)
  have b_hi: "of_int b < (2::rat) ^ lb"
    unfolding rb using B by (metis of_nat_less_iff of_nat_numeral of_nat_power)
  have rbpos: "0 < (of_int b :: rat)" using bpos by simp
  have rapos: "0 < (of_int a :: rat)" using apos by simp
  let ?e0 = "int la - int lb"
  have up: "q < pow2 (?e0 + 1)"
  proof -
    have "q < 2 ^ la / of_int b"
      unfolding q using a_hi rbpos by (simp add: divide_strict_right_mono)
    also have "\<dots> \<le> 2 ^ la / 2 ^ (lb - 1)"
      using b_lo by (simp add: frac_le)
    also have "\<dots> = pow2 (int la) * pow2 (- int (lb - 1))"
      by (simp add: pow2_powi power_int_minus divide_inverse)
    also have "\<dots> = pow2 (int la + - int (lb - 1))"
      by (rule pow2_add [symmetric])
    also have "int la + - int (lb - 1) = ?e0 + 1" using lb1 by simp
    finally show ?thesis .
  qed
  have lo: "pow2 (?e0 - 1) < q"
  proof -
    have "?e0 - 1 = int (la - 1) + - int lb"
      using la1 by simp
    then have "pow2 (?e0 - 1) = pow2 (int (la - 1) + - int lb)"
      by (rule arg_cong)
    also have "\<dots> = pow2 (int (la - 1)) * pow2 (- int lb)"
      by (rule pow2_add)
    also have "\<dots> = 2 ^ (la - 1) / 2 ^ lb"
      by (simp add: pow2_powi power_int_minus divide_inverse)
    also have "\<dots> < 2 ^ (la - 1) / of_int b"
      using b_hi rbpos by (simp add: divide_strict_left_mono)
    also have "\<dots> \<le> q"
      unfolding q using a_lo rbpos by (simp add: divide_right_mono)
    finally show ?thesis .
  qed
  have il: "ilog2 q = (if pow2 ?e0 \<le> q then ?e0 else ?e0 - 1)"
    by (simp add: ilog2_def ab la_def lb_def Let_def)
  show ?thesis
  proof (cases "pow2 ?e0 \<le> q")
    case True
    then show ?thesis using up by (simp add: il)
  next
    case False
    then show ?thesis using lo by (simp add: il)
  qed
qed

lemma round_half_even_error: "\<bar>of_int (round_half_even x) - x\<bar> \<le> 1 / 2"
proof -
  have "of_int \<lfloor>x\<rfloor> \<le> x" and "x < of_int \<lfloor>x\<rfloor> + 1"
    by linarith+
  then show ?thesis
    by (auto simp: round_half_even_def Let_def)
qed

lemma fl_error:
  assumes "0 < (q :: rat)"
  shows "\<bar>fl q - q\<bar> \<le> q / 2 ^ 53"
proof -
  define e where "e = ilog2 q"
  define sc where "sc = pow2 (52 - e)"
  define m where "m = round_half_even (q * sc)"
  have scpos: "0 < sc" by (simp add: sc_def pow2_pos)
  have inv: "pow2 (e - 52) * sc = 1"
    unfolding sc_def by (simp flip: pow2_add) (simp add: pow2_def)
  have fl: "fl q = of_int m * pow2 (e - 52)"
    using assms by (simp add: fl_def Let_def e_def m_def sc_def)
  have "fl q - q = (of_int m - q * sc) * pow2 (e - 52)"
    using inv by (simp add: fl algebra_simps)
  then have "\<bar>fl q - q\<bar> = \<bar>of_int m - q * sc\<bar> * pow2 (e - 52)"
    using pow2_pos [of "e - 52"] by (simp add: abs_mult)
  also have "\<dots> \<le> 1 / 2 * pow2 (e - 52)"
    using round_half_even_error [of "q * sc"] pow2_pos [of "e - 52"]
    by (simp add: m_def mult_right_mono)
  also have "1 / 2 * pow2 (e - 52) = pow2 e * pow2 (- 53)"
  proof -
    have "pow2 (e - 52) = pow2 (e + - 53) * pow2 1"
      using pow2_add [of "e + - 53" 1] by simp
    also have "pow2 (e + - 53) = pow2 e * pow2 (- 53)"
      by (rule pow2_add)
    finally show ?thesis by (simp add: pow2_def [of 1])
  qed
  also have "\<dots> \<le> q * pow2 (- 53)"
    using ilog2_bounds [OF assms] pow2_pos [of "- 53"] by (simp add: e_def mult_right_mono)
  also have "\<dots> = q / 2 ^ 53" by (simp add: pow2_def)
  finally show ?thesis .
qed

lemma fl_0: "fl 0 = 0"
  by (simp add: fl_def)

lemma percent_error:
  assumes "0 < t" and "c \<le> t"
  shows "\<bar>js_mul (js_div (of_nat c) (of_nat t)) 100 - 100 * of_nat c / of_nat t\<bar> \<le> 1 / 2 ^ 44"
proof (cases "c = 0")
  case True
  then show ?thesis by (simp add: js_mul_def js_div_def fl_0)
next
  case False
  define q :: rat where "q = of_nat c / of_nat t"
  define x where "x = fl q"
  define y where "y = fl (x * 100)"
  have qpos: "0 < q" using False assms by (simp add: q_def)
  have q1: "q \<le> 1" using assms by (simp add: q_def)
  define d :: rat where "d = 1 / 2 ^ 53"
  have dpos: "0 < d" and d1: "d \<le> 1" and d300: "300 * d \<le> 1 / 2 ^ 44"
    by (simp_all add: d_def)
  have ex: "\<bar>x - q\<bar> \<le> q * d"
    unfolding x_def d_def using fl_error [OF qpos] by simp
  have "q * d \<le> 1 * d" using q1 dpos by (intro mult_right_mono) simp_all
  then have ex': "\<bar>x - q\<bar> \<le> d" using ex by linarith
  have "q * d < q * 1" using qpos d_def by (intro mult_strict_left_mono) simp_all
  then have xpos: "0 < x" using ex by linarith
  have x2: "x \<le> 2" using ex' q1 d1 by linarith
  have "\<bar>y - x * 100\<bar> \<le> (x * 100) * d"
    unfolding y_def d_def using fl_error [of "x * 100"] xpos by simp
  also have "\<dots> \<le> (2 * 100) * d" using x2 dpos by (intro mult_right_mono) simp_all
  finally have ey: "\<bar>y - x * 100\<bar> \<le> 200 * d" by simp
  have "\<bar>y - 100 * q\<bar> \<le> 300 * d"
    using ey ex' by linarith
  then have "\<bar>y - 100 * q\<bar> \<le> 1 / 2 ^ 44" using d300 by linarith
  then show ?thesis
    by (simp add: y_def x_def q_def js_mul_def js_div_def)
qed

lemma bitlen_1: "bitlen (Suc 0) = 1"
  by (simp add: bitlen.simps)

lemma bitlen_100: "bitlen 100 = 7"
  by (simp add: bitlen.simps)

lemma fl_1: "fl 1 = 1"
  by (simp add: fl_def ilog2_def pow2_def round_half_even_def bitlen_1 Let_def)

lemma fl_100: "fl 100 = 100"
  by (simp add: fl_def ilog2_def pow2_def round_half_even_def bitlen_1 bitlen_100 Let_def)

lemma decimal_digits_1000: "decimal_digits 1000 = ascii ''1000''"
  by (simp add: decimal_digits.simps ascii_def)

lemma floor_2001_half: "\<lfloor>2001 / 2 :: rat\<rfloor> = 1000"
  by (simp add: floor_eq_iff)

lemma toFixed1_100: "toFixed1 100 = ascii ''100.0''"
  by (simp add: toFixed1_def floor_2001_half decimal_digits_1000 Let_def) (simp add: ascii_def)

lemma percent_full: "n \<noteq> 0 \<Longrightarrow> js_mul (js_div (of_nat n) (of_nat n)) 100 = 100"
  by (simp add: js_mul_def js_div_def fl_1 fl_100)

text \<open>
  Claim C9.  The count text shows the smaller of the size of the completed-set and the
  total, then the total.  When the total is 0 the percentage is 0 and its text is exactly
  \<open>0%\<close>; otherwise the percentage is the shown count divided by the total, times 100, in
  binary64 arithmetic, which is within \<open>2^-44\<close> of the exact quotient times 100, and its
  text is that number to one decimal place.  When the completed-set is at least as large
  as a non-zero total, the percentage is 100 and its text \<open>100.0%\<close>.
\<close>

theorem updateProgressUI_shows:
  "progressCount (updateProgressUI s) =
      decimal_digits (min (length (completedVideos s)) (totalVideos s)) @ ascii '' / ''
      @ decimal_digits (totalVideos s) @ [0x20, 0x672C]
   \<and> (totalVideos s = 0 \<longrightarrow>
         fillPercent (updateProgressUI s) = 0 \<and> progressText (updateProgressUI s) = ascii ''0%'')
   \<and> (totalVideos s \<noteq> 0 \<longrightarrow>
         fillPercent (updateProgressUI s) =
           js_mul (js_div (of_nat (min (length (completedVideos s)) (totalVideos s)))
                          (of_nat (totalVideos s))) 100
         \<and> \<bar>fillPercent (updateProgressUI s)
              - 100 * of_nat (min (length (completedVideos s)) (totalVideos s))
                / of_nat (totalVideos s)\<bar> \<le> 1 / 2 ^ 44
         \<and> progressText (updateProgressUI s) =
             toFixed1 (fillPercent (updateProgressUI s)) @ ascii ''%'')
   \<and> (totalVideos s \<noteq> 0 \<and> totalVideos s \<le> length (completedVideos s) \<longrightarrow>
         fillPercent (updateProgressUI s) = 100
         \<and> progressText (updateProgressUI s) = ascii ''100.0%'')"
proof (intro conjI impI)
  show "progressCount (updateProgressUI s) =
      decimal_digits (min (length (completedVideos s)) (totalVideos s)) @ ascii '' / ''
      @ decimal_digits (totalVideos s) @ [0x20, 0x672C]"
    by (simp add: updateProgressUI_def Let_def)
next
  assume "totalVideos s = 0"
  then show "fillPercent (updateProgressUI s) = 0"
    and "progressText (updateProgressUI s) = ascii ''0%''"
    by (simp_all add: updateProgressUI_def Let_def)
next
  assume nz: "totalVideos s \<noteq> 0"
  then show p: "fillPercent (updateProgressUI s) =
           js_mul (js_div (of_nat (min (length (completedVideos s)) (totalVideos s)))
                          (of_nat (totalVideos s))) 100"
    and "progressText (updateProgressUI s) =
             toFixed1 (fillPercent (updateProgressUI s)) @ ascii ''%''"
    by (simp_all add: updateProgressUI_def Let_def)
  show "\<bar>fillPercent (updateProgressUI s)
              - 100 * of_nat (min (length (completedVideos s)) (totalVideos s))
                / of_nat (totalVideos s)\<bar> \<le> 1 / 2 ^ 44"
    unfolding p using nz by (intro percent_error) simp_all
next
  assume a: "totalVideos s \<noteq> 0 \<and> totalVideos s \<le> length (completedVideos s)"
  then have m: "min (length (completedVideos s)) (totalVideos s) = totalVideos s"
    by simp
  have p: "fillPercent (updateProgressUI s) = 100"
    using a by (simp add: updateProgressUI_def Let_def m percent_full)
  show "fillPercent (updateProgressUI s) = 100" by (rule p)
  have "progressText (updateProgressUI s) =
          toFixed1 (fillPercent (updateProgressUI s)) @ ascii ''%''"
    using a by (simp add: updateProgressUI_def Let_def)
  then show "progressText (updateProgressUI s) = ascii ''100.0%''"
    by (simp add: p toFixed1_100 ascii_def)
qed

text \<open>
  The theorem at a total of 10 with a completed-set of 12 paths, and at a total of 0.
\<close>

theorem updateProgressUI_shows_witness:
  "progressCount (updateProgressUI
      \<lparr>categories = [], completedVideos = map (\<lambda>i. [i]) [0..<12], totalVideos = 10,
       validVideoPaths = [], setItemLog = []\<rparr>) = ascii ''10 / 10 '' @ [0x672C]
   \<and> progressText (updateProgressUI
      \<lparr>categories = [], completedVideos = map (\<lambda>i. [i]) [0..<12], totalVideos = 10,
       validVideoPaths = [], setItemLog = []\<rparr>) = ascii ''100.0%''
   \<and> progressText (updateProgressUI
      \<lparr>categories = [], completedVideos = [], totalVideos = 0,
       validVideoPaths = [], setItemLog = []\<rparr>) = ascii ''0%''"
  using updateProgressUI_shows
    [of "\<lparr>categories = [], completedVideos = map (\<lambda>i. [i]) [0..<12], totalVideos = 10,
       validVideoPaths = [], setItemLog = []\<rparr>"]
    updateProgressUI_shows
    [of "\<lparr>categories = [], completedVideos = [], totalVideos = 0,
       validVideoPaths = [], setItemLog = []\<rparr>"]
  by (simp add: decimal_digits.simps ascii_def js_mul_def js_div_def fl_1 fl_100 toFixed1_100)

end
